theory Spec2Isabelle
  imports Main
begin

section \<open>The coordinator's data (class SyncPoint::Impl of sync\_point.cc)\<close>

text \<open>
  A point is a \<^verbatim>\<open>std::string\<close>.  A \<^verbatim>\<open>std::thread::id\<close> is an opaque identity that is
  only ever compared for equality; it is a natural number here.  A callback argument is a
  \<^verbatim>\<open>void*\<close> that the coordinator never reads: an address.  A callback is a
  \<^verbatim>\<open>std::function\<close> whose body is the caller's code; its type is the parameter \<open>'cb\<close>.
\<close>

type_synonym point = string
type_synonym thread_id = nat
type_synonym arg = nat

record SyncPointPair =
  predecessor :: point
  successor :: point

text \<open>
  The private members of \<^verbatim>\<open>SyncPoint::Impl\<close>, by their names without the trailing
  underscore.  An \<^verbatim>\<open>unordered_map\<close> is a map, a \<^verbatim>\<open>vector\<close> a list, the
  \<^verbatim>\<open>unordered_set\<close> a set.  The counter is a C++ \<^verbatim>\<open>int\<close>; it counts threads that are
  inside a callback, so it stays far from the limits of its type and is an integer here.
  \<^verbatim>\<open>mutex_\<close> and \<^verbatim>\<open>cv_\<close> carry no data: they decide which stretches of code run
  atomically, see the step function below.
\<close>

record 'cb Impl =
  enabled :: bool
  num_callbacks_running :: int
  successors :: "point \<rightharpoonup> point list"
  predecessors :: "point \<rightharpoonup> point list"
  callbacks :: "point \<rightharpoonup> 'cb"
  markers :: "point \<rightharpoonup> point list"
  marked_thread_id :: "point \<rightharpoonup> thread_id"
  cleared_points :: "point set"

text \<open>The member initialisers: disabled on startup, nothing running, every container empty.\<close>

definition Impl_init :: "'cb Impl" where
  "Impl_init =
     \<lparr>enabled = False, num_callbacks_running = 0, successors = Map.empty,
      predecessors = Map.empty, callbacks = Map.empty, markers = Map.empty,
      marked_thread_id = Map.empty, cleared_points = {}\<rparr>"

section \<open>The operations that hold the mutex from entry to exit\<close>

definition EnableProcessing :: "'cb Impl \<Rightarrow> 'cb Impl" where
  "EnableProcessing s = s\<lparr>enabled := True\<rparr>"

definition DisableProcessing :: "'cb Impl \<Rightarrow> 'cb Impl" where
  "DisableProcessing s = s\<lparr>enabled := False\<rparr>"

text \<open>
  \<^verbatim>\<open>m[k].push_back(v)\<close>: \<^verbatim>\<open>operator[]\<close> default-constructs an empty vector for a key
  that is absent, then the element is appended.
\<close>

definition push_back :: "(point \<rightharpoonup> point list) \<Rightarrow> point \<Rightarrow> point \<Rightarrow> (point \<rightharpoonup> point list)" where
  "push_back m k v = m(k \<mapsto> (case m k of None \<Rightarrow> [] | Some xs \<Rightarrow> xs) @ [v])"

text \<open>The loop over \<^verbatim>\<open>dependencies\<close> (lines 44-47).\<close>

fun load_dependencies :: "SyncPointPair list \<Rightarrow> 'cb Impl \<Rightarrow> 'cb Impl" where
  "load_dependencies [] s = s"
| "load_dependencies (d # ds) s =
     load_dependencies ds
       (s\<lparr>successors := push_back (successors s) (predecessor d) (successor d),
          predecessors := push_back (predecessors s) (successor d) (predecessor d)\<rparr>)"

text \<open>The loop over \<^verbatim>\<open>markers\<close> (lines 48-52).\<close>

fun load_markers :: "SyncPointPair list \<Rightarrow> 'cb Impl \<Rightarrow> 'cb Impl" where
  "load_markers [] s = s"
| "load_markers (m # ms) s =
     load_markers ms
       (s\<lparr>successors := push_back (successors s) (predecessor m) (successor m),
          predecessors := push_back (predecessors s) (successor m) (predecessor m),
          markers := push_back (markers s) (predecessor m) (successor m)\<rparr>)"

text \<open>
  \<^verbatim>\<open>LoadDependencyAndMarkers\<close> (lines 36-54): five \<^verbatim>\<open>clear()\<close> calls, then the two
  loops.  The closing \<^verbatim>\<open>cv_.notify_all()\<close> changes no data; it is an event of the step
  function.
\<close>

definition LoadDependencyAndMarkers ::
  "SyncPointPair list \<Rightarrow> SyncPointPair list \<Rightarrow> 'cb Impl \<Rightarrow> 'cb Impl" where
  "LoadDependencyAndMarkers dependencies mks s =
     load_markers mks
       (load_dependencies dependencies
          (s\<lparr>successors := Map.empty, predecessors := Map.empty, cleared_points := {},
             markers := Map.empty, marked_thread_id := Map.empty\<rparr>))"

definition SetCallBack :: "point \<Rightarrow> 'cb \<Rightarrow> 'cb Impl \<Rightarrow> 'cb Impl" where
  "SetCallBack pt callback s = s\<lparr>callbacks := (callbacks s)(pt \<mapsto> callback)\<rparr>"

text \<open>
  \<^verbatim>\<open>ClearCallBack\<close> and \<^verbatim>\<open>ClearAllCallBacks\<close> (lines 61-75) test the counter with the
  mutex held and erase in the same critical section; while the counter is positive the
  caller sits in \<^verbatim>\<open>cv_.wait\<close>, the mutex released and nothing changed.  \<open>None\<close> is that
  waiting caller.
\<close>

definition ClearCallBack :: "point \<Rightarrow> 'cb Impl \<Rightarrow> 'cb Impl option" where
  "ClearCallBack pt s =
     (if num_callbacks_running s > 0 then None
      else Some (s\<lparr>callbacks := (callbacks s)(pt := None)\<rparr>))"

definition ClearAllCallBacks :: "'cb Impl \<Rightarrow> 'cb Impl option" where
  "ClearAllCallBacks s =
     (if num_callbacks_running s > 0 then None
      else Some (s\<lparr>callbacks := Map.empty\<rparr>))"

definition ClearTrace :: "'cb Impl \<Rightarrow> 'cb Impl" where
  "ClearTrace s = s\<lparr>cleared_points := {}\<rparr>"

section \<open>Process\<close>

text \<open>
  \<^verbatim>\<open>unordered_map::emplace\<close> inserts only when the key is absent; a key that is present
  keeps its element.
\<close>

definition emplace :: "('k \<rightharpoonup> 'v) \<Rightarrow> 'k \<Rightarrow> 'v \<Rightarrow> ('k \<rightharpoonup> 'v)" where
  "emplace m k v = (case m k of None \<Rightarrow> m(k \<mapsto> v) | Some old \<Rightarrow> m)"

text \<open>The loop of lines 90-92 over the marked points of a marker.\<close>

fun mark_points :: "point list \<Rightarrow> thread_id \<Rightarrow> (point \<rightharpoonup> thread_id) \<Rightarrow> (point \<rightharpoonup> thread_id)" where
  "mark_points [] tid m = m"
| "mark_points (q # qs) tid m = mark_points qs tid (emplace m q tid)"

text \<open>Lines 88-93: \<^verbatim>\<open>markers_.find(point)\<close> and, when found, the loop.\<close>

definition record_markers :: "point \<Rightarrow> thread_id \<Rightarrow> 'cb Impl \<Rightarrow> 'cb Impl" where
  "record_markers pt tid s =
     (case markers s pt of
        None \<Rightarrow> s
      | Some marked \<Rightarrow> s\<lparr>marked_thread_id := mark_points marked tid (marked_thread_id s)\<rparr>)"

definition DisabledByMarker :: "'cb Impl \<Rightarrow> point \<Rightarrow> thread_id \<Rightarrow> bool" where
  "DisabledByMarker s pt tid =
     (case marked_thread_id s pt of None \<Rightarrow> False | Some owner \<Rightarrow> tid \<noteq> owner)"

text \<open>The loop of \<^verbatim>\<open>PredecessorsAllCleared\<close>: the first predecessor that is not cleared ends it.\<close>

fun all_cleared :: "point list \<Rightarrow> point set \<Rightarrow> bool" where
  "all_cleared [] cl = True"
| "all_cleared (pred # preds) cl = (if pred \<notin> cl then False else all_cleared preds cl)"

text \<open>
  \<^verbatim>\<open>PredecessorsAllCleared\<close> reads \<^verbatim>\<open>predecessors_[point]\<close>: for a point with no entry,
  \<^verbatim>\<open>operator[]\<close> adds an empty one.  The function returns the answer and the map.
\<close>

definition PredecessorsAllCleared :: "'cb Impl \<Rightarrow> point \<Rightarrow> bool \<times> 'cb Impl" where
  "PredecessorsAllCleared s pt =
     (let preds = (case predecessors s pt of None \<Rightarrow> [] | Some ps \<Rightarrow> ps)
      in (all_cleared preds (cleared_points s),
          s\<lparr>predecessors := (predecessors s)(pt \<mapsto> preds)\<rparr>))"

text \<open>
  What a thread inside \<^verbatim>\<open>Process\<close> is doing when it does not hold the mutex: it has been
  called and not yet read \<^verbatim>\<open>enabled_\<close>; it has read it and stands at the
  \<^verbatim>\<open>unique_lock\<close> of line 86; it sits in \<^verbatim>\<open>cv_.wait\<close> (line 100); or it runs the
  callback it found (line 110), which it holds by value from then on.
\<close>

datatype 'cb frame =
    Entered point "arg list"
  | Locking point "arg list"
  | Waiting point "arg list"
  | InCallback point 'cb "arg list"

text \<open>
  What an atomic stretch of code does that another thread or the caller can see, in
  program order: the callback call of line 110, the insertion of line 114, a
  \<^verbatim>\<open>notify_all\<close> (lines 53 and 115), a \<^verbatim>\<open>cv_.wait\<close> entered in \<^verbatim>\<open>Process\<close> (line 100)
  or in a removal (lines 64 and 72), an early return on the marker test (lines 96 and
  102), and the two erasures (lines 66 and 74).
\<close>

datatype 'cb event =
    Invoke thread_id point 'cb "arg list"
  | Insert thread_id point
  | NotifyAll
  | Wait thread_id point
  | WaitCallbacks
  | Suppressed thread_id point
  | Erase point
  | EraseAll

text \<open>
  Lines 99-100 and 106-115 up to the point where the mutex is given up: the loop test;
  when it fails the thread waits; when it holds, the callback is looked up and either the
  counter is raised and the mutex released for the call, or the point is inserted and
  the waiters are notified.  The result is the events, the frame the thread is left in
  (\<open>None\<close>: \<^verbatim>\<open>Process\<close> has returned) and the data.
\<close>

definition wait_loop ::
  "thread_id \<Rightarrow> point \<Rightarrow> arg list \<Rightarrow> 'cb Impl \<Rightarrow> 'cb event list \<times> 'cb frame option \<times> 'cb Impl" where
  "wait_loop tid pt cb_args s =
     (case PredecessorsAllCleared s pt of
        (ok, s1) \<Rightarrow>
          if \<not> ok then ([Wait tid pt], Some (Waiting pt cb_args), s1)
          else (case callbacks s1 pt of
                  Some cb \<Rightarrow>
                    ([Invoke tid pt cb cb_args], Some (InCallback pt cb cb_args),
                     s1\<lparr>num_callbacks_running := num_callbacks_running s1 + 1\<rparr>)
                | None \<Rightarrow>
                    ([Insert tid pt, NotifyAll], None,
                     s1\<lparr>cleared_points := insert pt (cleared_points s1)\<rparr>)))"

text \<open>Lines 83-85: the read of the atomic flag, outside the mutex.\<close>

definition Process_entry ::
  "thread_id \<Rightarrow> point \<Rightarrow> arg list \<Rightarrow> 'cb Impl \<Rightarrow> 'cb event list \<times> 'cb frame option \<times> 'cb Impl" where
  "Process_entry tid pt cb_args s =
     (if \<not> enabled s then ([], None, s) else ([], Some (Locking pt cb_args), s))"

text \<open>Lines 86-97, then the loop: the mutex is taken, the markers recorded, the marker test made.\<close>

definition Process_locked ::
  "thread_id \<Rightarrow> point \<Rightarrow> arg list \<Rightarrow> 'cb Impl \<Rightarrow> 'cb event list \<times> 'cb frame option \<times> 'cb Impl" where
  "Process_locked tid pt cb_args s =
     (let s1 = record_markers pt tid s
      in if DisabledByMarker s1 pt tid then ([Suppressed tid pt], None, s1)
         else wait_loop tid pt cb_args s1)"

text \<open>Lines 100-103, then the loop: \<^verbatim>\<open>cv_.wait\<close> returns with the mutex held.\<close>

definition Process_woken ::
  "thread_id \<Rightarrow> point \<Rightarrow> arg list \<Rightarrow> 'cb Impl \<Rightarrow> 'cb event list \<times> 'cb frame option \<times> 'cb Impl" where
  "Process_woken tid pt cb_args s =
     (if DisabledByMarker s pt tid then ([Suppressed tid pt], None, s)
      else wait_loop tid pt cb_args s)"

text \<open>Lines 111-115: the callback has returned; the mutex is taken again.\<close>

definition Process_finish ::
  "thread_id \<Rightarrow> point \<Rightarrow> 'cb Impl \<Rightarrow> 'cb event list \<times> 'cb frame option \<times> 'cb Impl" where
  "Process_finish tid pt s =
     ([Insert tid pt, NotifyAll], None,
      s\<lparr>num_callbacks_running := num_callbacks_running s - 1,
        cleared_points := insert pt (cleared_points s)\<rparr>)"

fun Process_step ::
  "thread_id \<Rightarrow> 'cb frame \<Rightarrow> 'cb Impl \<Rightarrow> 'cb event list \<times> 'cb frame option \<times> 'cb Impl" where
  "Process_step tid (Entered pt cb_args) s = Process_entry tid pt cb_args s"
| "Process_step tid (Locking pt cb_args) s = Process_locked tid pt cb_args s"
| "Process_step tid (Waiting pt cb_args) s = Process_woken tid pt cb_args s"
| "Process_step tid (InCallback pt cb cb_args) s = Process_finish tid pt s"

section \<open>Threads\<close>

text \<open>
  The coordinator's data together with, for every thread, the \<^verbatim>\<open>Process\<close> calls it is
  in, innermost first: a callback runs with the mutex released and may call
  \<^verbatim>\<open>Process\<close> again.  A thread with no call is in the caller's code.
\<close>

record 'cb config =
  impl :: "'cb Impl"
  threads :: "thread_id \<Rightarrow> 'cb frame list"

definition init_config :: "'cb config" where
  "init_config = \<lparr>impl = Impl_init, threads = (\<lambda>tid. [])\<rparr>"

datatype 'cb api =
    Enable
  | Disable
  | Load "SyncPointPair list" "SyncPointPair list"
  | SetCB point 'cb
  | ClearCB point
  | ClearAllCB
  | ClearTr

datatype 'cb action =
    Call thread_id point "arg list"
  | Run thread_id
  | Api "'cb api"

text \<open>A thread can call \<^verbatim>\<open>Process\<close> from the caller's code or from inside a callback.\<close>

fun in_user_code :: "'cb frame list \<Rightarrow> bool" where
  "in_user_code [] = True"
| "in_user_code (InCallback pt cb cb_args # st) = True"
| "in_user_code (f # st) = False"

fun api_step :: "'cb api \<Rightarrow> 'cb Impl \<Rightarrow> 'cb event list \<times> 'cb Impl" where
  "api_step Enable s = ([], EnableProcessing s)"
| "api_step Disable s = ([], DisableProcessing s)"
| "api_step (Load dependencies mks) s = ([NotifyAll], LoadDependencyAndMarkers dependencies mks s)"
| "api_step (SetCB pt cb) s = ([], SetCallBack pt cb s)"
| "api_step (ClearCB pt) s =
     (case ClearCallBack pt s of None \<Rightarrow> ([WaitCallbacks], s) | Some s' \<Rightarrow> ([Erase pt], s'))"
| "api_step ClearAllCB s =
     (case ClearAllCallBacks s of None \<Rightarrow> ([WaitCallbacks], s) | Some s' \<Rightarrow> ([EraseAll], s'))"
| "api_step ClearTr s = ([], ClearTrace s)"

text \<open>
  One step of the whole program.  Every access to the coordinator's data but the read of
  \<^verbatim>\<open>enabled_\<close> is made with \<^verbatim>\<open>mutex_\<close> held, so a stretch of code from taking the mutex
  to giving it up (at a return, in \<^verbatim>\<open>cv_.wait\<close>, or at line 109) is one step; the atomic
  flag is read and written in steps of its own.  \<open>Run tid\<close> lets thread \<open>tid\<close> run its
  innermost call to the next such place.  A thread in \<^verbatim>\<open>cv_.wait\<close> may run at any time
  (a condition variable may wake without a notification): it makes the marker test and the
  loop test again and, while a predecessor is still not cleared, waits again.
  A step that the thread cannot take (a call from a thread that is inside \<^verbatim>\<open>Process\<close> and
  not in a callback, a run of a thread that is in no call) leaves everything as it is.
\<close>

fun step :: "'cb config \<Rightarrow> 'cb action \<Rightarrow> 'cb event list \<times> 'cb config" where
  "step c (Call tid pt cb_args) =
     (if in_user_code (threads c tid)
      then ([], c\<lparr>threads := (threads c)(tid := Entered pt cb_args # threads c tid)\<rparr>)
      else ([], c))"
| "step c (Run tid) =
     (case threads c tid of
        [] \<Rightarrow> ([], c)
      | f # st \<Rightarrow>
          (case Process_step tid f (impl c) of
             (evs, nxt, s') \<Rightarrow>
               (evs, c\<lparr>impl := s',
                       threads := (threads c)(tid := (case nxt of None \<Rightarrow> st | Some f' \<Rightarrow> f' # st))\<rparr>)))"
| "step c (Api a) =
     (case api_step a (impl c) of (evs, s') \<Rightarrow> (evs, c\<lparr>impl := s'\<rparr>))"

text \<open>A schedule is a list of actions; it leaves a final configuration and a trace of events.\<close>

fun final :: "'cb config \<Rightarrow> 'cb action list \<Rightarrow> 'cb config" where
  "final c [] = c"
| "final c (a # as) = final (snd (step c a)) as"

fun trace :: "'cb config \<Rightarrow> 'cb action list \<Rightarrow> 'cb event list" where
  "trace c [] = []"
| "trace c (a # as) = fst (step c a) @ trace (snd (step c a)) as"

fun is_reset :: "'cb action \<Rightarrow> bool" where
  "is_reset (Api (Load dependencies mks)) = True"
| "is_reset (Api ClearTr) = True"
| "is_reset a = False"

fun is_load :: "'cb action \<Rightarrow> bool" where
  "is_load (Api (Load dependencies mks)) = True"
| "is_load a = False"

section \<open>Notions used in the statements\<close>

text \<open>The index that a run of \<open>push_back\<close> over a list of key-element pairs builds on top of a map.\<close>

fun grouped :: "(point \<times> point) list \<Rightarrow> (point \<rightharpoonup> point list) \<Rightarrow> (point \<rightharpoonup> point list)" where
  "grouped [] m = m"
| "grouped (kv # kvs) m = grouped kvs (push_back m (fst kv) (snd kv))"

definition forward :: "SyncPointPair \<Rightarrow> point \<times> point" where
  "forward d = (predecessor d, successor d)"

definition backward :: "SyncPointPair \<Rightarrow> point \<times> point" where
  "backward d = (successor d, predecessor d)"

text \<open>The callbacks that are running: the frames at line 110, over all threads.\<close>

fun is_callback :: "'cb frame \<Rightarrow> bool" where
  "is_callback (InCallback pt cb cb_args) = True"
| "is_callback f = False"

definition running :: "'cb frame list \<Rightarrow> int" where
  "running st = int (length (filter is_callback st))"

definition busy :: "(thread_id \<Rightarrow> 'cb frame list) \<Rightarrow> thread_id set" where
  "busy th = {tid. th tid \<noteq> []}"

definition in_flight :: "'cb config \<Rightarrow> int" where
  "in_flight c = (\<Sum>tid \<in> busy (threads c). running (threads c tid))"

definition counter_ok :: "'cb config \<Rightarrow> bool" where
  "counter_ok c \<longleftrightarrow> finite (busy (threads c)) \<and> num_callbacks_running (impl c) = in_flight c"






section \<open>Schedules used as examples\<close>

text \<open>
  One marker pair from \<open>M\<close> to \<open>S\<close>; processing enabled; thread 1 fires \<open>M\<close> to the
  end, then thread 2 does.
\<close>

definition two_marker_firings :: "nat action list" where
  "two_marker_firings =
     [Api (Load [] [\<lparr>predecessor = ''M'', successor = ''S''\<rparr>]), Api Enable,
      Call 1 ''M'' [], Run 1, Run 1, Call 2 ''M'' [], Run 2, Run 2]"

text \<open>The same, stopped when thread 2 stands at the mutex in its firing of \<open>M\<close>.\<close>

definition second_marker_at_lock :: "nat config" where
  "second_marker_at_lock =
     final init_config
       [Api (Load [] [\<lparr>predecessor = ''M'', successor = ''S''\<rparr>]), Api Enable,
        Call 1 ''M'' [], Run 1, Run 1, Call 2 ''M'' [], Run 2]"

text \<open>
  Two marker pairs in a chain, \<open>A\<close> to \<open>B\<close> and \<open>B\<close> to \<open>C\<close>; processing enabled;
  thread 1 has fired \<open>A\<close>.
\<close>

definition chained_markers :: "nat config" where
  "chained_markers =
     final init_config
       [Api (Load [] [\<lparr>predecessor = ''A'', successor = ''B''\<rparr>,
                      \<lparr>predecessor = ''B'', successor = ''C''\<rparr>]),
        Api Enable, Call 1 ''A'' [], Run 1, Run 1]"

text \<open>
  Thread 1 fires \<open>P\<close>; a callback is set for \<open>Q\<close> and thread 2 fires \<open>Q\<close>; while
  that callback runs, the callback of \<open>P\<close> is cleared (the caller waits) and processing is
  disabled; the callback returns; all callbacks are cleared and processing is enabled.
\<close>

definition fired_then_busy :: "nat action list" where
  "fired_then_busy =
     [Call 1 ''P'' [], Run 1, Run 1, Api (SetCB ''Q'' 7), Call 2 ''Q'' [], Run 2, Run 2,
      Api (ClearCB ''P''), Api Disable, Run 2, Api ClearAllCB, Api Enable]"

text \<open>The initial configuration with processing enabled.\<close>

definition enabled_config :: "nat config" where
  "enabled_config = final init_config [Api Enable]"

text \<open>
  Processing is enabled, a callback is set for \<open>Q\<close>, and thread 2 fires \<open>Q\<close> up to the
  call of the callback; in the second configuration the callback has returned.
\<close>

definition callback_running :: "nat config" where
  "callback_running =
     final init_config [Api Enable, Api (SetCB ''Q'' 7), Call 2 ''Q'' [], Run 2, Run 2]"

definition callback_returned :: "nat config" where
  "callback_returned =
     final init_config [Api Enable, Api (SetCB ''Q'' 7), Call 2 ''Q'' [], Run 2, Run 2, Run 2]"





section \<open>Reloading the graph\<close>

lemma load_dependencies_frame:
  "enabled (load_dependencies ds s) = enabled s"
  "num_callbacks_running (load_dependencies ds s) = num_callbacks_running s"
  "callbacks (load_dependencies ds s) = callbacks s"
  "markers (load_dependencies ds s) = markers s"
  "marked_thread_id (load_dependencies ds s) = marked_thread_id s"
  "cleared_points (load_dependencies ds s) = cleared_points s"
  by (induction ds arbitrary: s) simp_all

lemma load_markers_frame:
  "enabled (load_markers ms s) = enabled s"
  "num_callbacks_running (load_markers ms s) = num_callbacks_running s"
  "callbacks (load_markers ms s) = callbacks s"
  "marked_thread_id (load_markers ms s) = marked_thread_id s"
  "cleared_points (load_markers ms s) = cleared_points s"
  by (induction ms arbitrary: s) simp_all

lemma grouped_append: "grouped (xs @ ys) m = grouped ys (grouped xs m)"
  by (induction xs arbitrary: m) simp_all

lemma grouped_lookup:
  "grouped kvs m k =
     (let vs = map snd (filter (\<lambda>kv. fst kv = k) kvs)
      in if vs = [] then m k else Some ((case m k of None \<Rightarrow> [] | Some ys \<Rightarrow> ys) @ vs))"
  by (induction kvs arbitrary: m) (simp_all add: push_back_def Let_def)

lemma grouped_empty_lookup:
  "grouped kvs Map.empty k =
     (if map snd (filter (\<lambda>kv. fst kv = k) kvs) = [] then None
      else Some (map snd (filter (\<lambda>kv. fst kv = k) kvs)))"
  by (simp add: grouped_lookup Let_def)

lemma grouped_member:
  assumes "(k, v) \<in> set kvs"
  shows "\<exists>vs. grouped kvs m k = Some vs \<and> v \<in> set vs"
proof -
  from assms have "v \<in> set (map snd (filter (\<lambda>kv. fst kv = k) kvs))"
    by force
  moreover from this have "map snd (filter (\<lambda>kv. fst kv = k) kvs) \<noteq> []"
    by (metis empty_iff empty_set)
  ultimately show ?thesis
    by (simp add: grouped_lookup Let_def del: set_map)
qed

lemma load_dependencies_index:
  "successors (load_dependencies ds s) = grouped (map forward ds) (successors s)"
  "predecessors (load_dependencies ds s) = grouped (map backward ds) (predecessors s)"
  by (induction ds arbitrary: s) (simp_all add: forward_def backward_def)

lemma load_markers_index:
  "successors (load_markers ms s) = grouped (map forward ms) (successors s)"
  "predecessors (load_markers ms s) = grouped (map backward ms) (predecessors s)"
  "markers (load_markers ms s) = grouped (map forward ms) (markers s)"
  by (induction ms arbitrary: s) (simp_all add: forward_def backward_def)

lemma Load_successors:
  "successors (LoadDependencyAndMarkers ds ms s) = grouped (map forward (ds @ ms)) Map.empty"
  by (simp add: LoadDependencyAndMarkers_def load_markers_index load_dependencies_index
        grouped_append)

lemma Load_predecessors:
  "predecessors (LoadDependencyAndMarkers ds ms s) = grouped (map backward (ds @ ms)) Map.empty"
  by (simp add: LoadDependencyAndMarkers_def load_markers_index load_dependencies_index
        grouped_append)

lemma Load_markers:
  "markers (LoadDependencyAndMarkers ds ms s) = grouped (map forward ms) Map.empty"
  by (simp add: LoadDependencyAndMarkers_def load_markers_index load_dependencies_frame)

lemma Load_frame:
  "enabled (LoadDependencyAndMarkers ds ms s) = enabled s"
  "num_callbacks_running (LoadDependencyAndMarkers ds ms s) = num_callbacks_running s"
  "callbacks (LoadDependencyAndMarkers ds ms s) = callbacks s"
  "marked_thread_id (LoadDependencyAndMarkers ds ms s) = Map.empty"
  "cleared_points (LoadDependencyAndMarkers ds ms s) = {}"
  by (simp_all add: LoadDependencyAndMarkers_def load_markers_frame load_dependencies_frame)

lemma filter_forward:
  "map snd (filter (\<lambda>kv. fst kv = k) (map forward ds)) =
     map successor (filter (\<lambda>d. predecessor d = k) ds)"
  by (induction ds) (simp_all add: forward_def)

lemma filter_backward:
  "map snd (filter (\<lambda>kv. fst kv = k) (map backward ds)) =
     map predecessor (filter (\<lambda>d. successor d = k) ds)"
  by (induction ds) (simp_all add: backward_def)

text \<open>
  Claim C4.  Every marker pair of the list given to \<^verbatim>\<open>LoadDependencyAndMarkers\<close> is
  entered into both dependency indices: after the call the predecessor list of the marked
  successor contains the marker predecessor and the successor list of the marker
  predecessor contains the marked successor; the two indices are the ones the call
  builds when the marker pairs stand at the end of the dependencies list instead.
\<close>

theorem markers_enter_dependency_indices:
  fixes s :: "'cb Impl"
  shows "(\<forall>m \<in> set mks.
            (\<exists>ps. predecessors (LoadDependencyAndMarkers ds mks s) (successor m) = Some ps
                  \<and> predecessor m \<in> set ps)
          \<and> (\<exists>ss. successors (LoadDependencyAndMarkers ds mks s) (predecessor m) = Some ss
                  \<and> successor m \<in> set ss))
       \<and> successors (LoadDependencyAndMarkers ds mks s) =
           successors (LoadDependencyAndMarkers (ds @ mks) [] s)
       \<and> predecessors (LoadDependencyAndMarkers ds mks s) =
           predecessors (LoadDependencyAndMarkers (ds @ mks) [] s)"
proof (intro conjI ballI)
  fix m assume m: "m \<in> set mks"
  then have "(successor m, predecessor m) \<in> set (map backward (ds @ mks))"
    by (auto simp: backward_def)
  then show "\<exists>ps. predecessors (LoadDependencyAndMarkers ds mks s) (successor m) = Some ps
                  \<and> predecessor m \<in> set ps"
    unfolding Load_predecessors by (rule grouped_member)
  from m have "(predecessor m, successor m) \<in> set (map forward (ds @ mks))"
    by (auto simp: forward_def)
  then show "\<exists>ss. successors (LoadDependencyAndMarkers ds mks s) (predecessor m) = Some ss
                  \<and> successor m \<in> set ss"
    unfolding Load_successors by (rule grouped_member)
next
  show "successors (LoadDependencyAndMarkers ds mks s) =
           successors (LoadDependencyAndMarkers (ds @ mks) [] s)"
    by (simp only: Load_successors append_Nil2)
  show "predecessors (LoadDependencyAndMarkers ds mks s) =
           predecessors (LoadDependencyAndMarkers (ds @ mks) [] s)"
    by (simp only: Load_predecessors append_Nil2)
qed

theorem markers_enter_dependency_indices_witness:
  "(\<exists>ps. predecessors
            (LoadDependencyAndMarkers [\<lparr>predecessor = ''A'', successor = ''S''\<rparr>]
               [\<lparr>predecessor = ''M'', successor = ''S''\<rparr>] (Impl_init :: nat Impl)) ''S'' = Some ps
         \<and> ''M'' \<in> set ps)
   \<and> (\<exists>ss. successors
            (LoadDependencyAndMarkers [\<lparr>predecessor = ''A'', successor = ''S''\<rparr>]
               [\<lparr>predecessor = ''M'', successor = ''S''\<rparr>] (Impl_init :: nat Impl)) ''M'' = Some ss
         \<and> ''S'' \<in> set ss)"
  using markers_enter_dependency_indices
    [of "[\<lparr>predecessor = ''M'', successor = ''S''\<rparr>]"
        "[\<lparr>predecessor = ''A'', successor = ''S''\<rparr>]" "Impl_init :: nat Impl",
     THEN conjunct1]
  by simp

text \<open>
  Claim C5.  \<^verbatim>\<open>LoadDependencyAndMarkers\<close> replaces the whole graph state, whatever the
  prior state was: afterwards the successor index, the predecessor index and the marker
  index hold exactly the pairs of the two lists given (so they are the same from any two
  prior states), and the marked-thread records and the cleared-points set are empty.  The
  call holds the mutex from its first statement to its last, so it is one step of the
  program: no other thread sees a state between the old graph and the new one.
\<close>

theorem load_replaces_graph_state:
  fixes s s2 :: "'cb Impl" and c :: "'cb config"
  shows "successors (LoadDependencyAndMarkers ds ms s) p =
           (if map successor (filter (\<lambda>d. predecessor d = p) (ds @ ms)) = [] then None
            else Some (map successor (filter (\<lambda>d. predecessor d = p) (ds @ ms))))
    \<and> predecessors (LoadDependencyAndMarkers ds ms s) p =
           (if map predecessor (filter (\<lambda>d. successor d = p) (ds @ ms)) = [] then None
            else Some (map predecessor (filter (\<lambda>d. successor d = p) (ds @ ms))))
    \<and> markers (LoadDependencyAndMarkers ds ms s) p =
           (if map successor (filter (\<lambda>d. predecessor d = p) ms) = [] then None
            else Some (map successor (filter (\<lambda>d. predecessor d = p) ms)))
    \<and> marked_thread_id (LoadDependencyAndMarkers ds ms s) = Map.empty
    \<and> cleared_points (LoadDependencyAndMarkers ds ms s) = {}
    \<and> successors (LoadDependencyAndMarkers ds ms s) = successors (LoadDependencyAndMarkers ds ms s2)
    \<and> predecessors (LoadDependencyAndMarkers ds ms s) = predecessors (LoadDependencyAndMarkers ds ms s2)
    \<and> markers (LoadDependencyAndMarkers ds ms s) = markers (LoadDependencyAndMarkers ds ms s2)
    \<and> step c (Api (Load ds ms)) = ([NotifyAll], c\<lparr>impl := LoadDependencyAndMarkers ds ms (impl c)\<rparr>)"
  by (simp add: Load_successors Load_predecessors Load_markers Load_frame
        grouped_empty_lookup filter_forward filter_backward del: map_append filter_append)

text \<open>
  Claim C10.  \<^verbatim>\<open>LoadDependencyAndMarkers\<close> leaves the callback registry and the enabled
  flag (and the in-flight counter) as they were, for every prior state and every input.
\<close>

theorem load_keeps_callbacks_and_enabled:
  fixes s :: "'cb Impl"
  shows "callbacks (LoadDependencyAndMarkers ds mks s) = callbacks s
       \<and> enabled (LoadDependencyAndMarkers ds mks s) = enabled s
       \<and> num_callbacks_running (LoadDependencyAndMarkers ds mks s) = num_callbacks_running s"
  by (simp add: Load_frame)

section \<open>ClearTrace\<close>

text \<open>
  Claim C9.  \<^verbatim>\<open>ClearTrace\<close> empties the cleared-points set and nothing else: the
  dependency indices, the marker index, the marked-thread records, the callback registry,
  the in-flight counter and the enabled flag are unchanged, and no thread is affected.
\<close>

theorem clear_trace_empties_only_cleared_points:
  fixes s :: "'cb Impl" and c :: "'cb config"
  shows "cleared_points (ClearTrace s) = {}
       \<and> successors (ClearTrace s) = successors s
       \<and> predecessors (ClearTrace s) = predecessors s
       \<and> markers (ClearTrace s) = markers s
       \<and> marked_thread_id (ClearTrace s) = marked_thread_id s
       \<and> callbacks (ClearTrace s) = callbacks s
       \<and> num_callbacks_running (ClearTrace s) = num_callbacks_running s
       \<and> enabled (ClearTrace s) = enabled s
       \<and> step c (Api ClearTr) = ([], c\<lparr>impl := ClearTrace (impl c)\<rparr>)"
  by (simp add: ClearTrace_def)

section \<open>Process while disabled\<close>

text \<open>
  Claim C7.  While the enabled flag is false, a call of \<^verbatim>\<open>Process\<close> on any point with
  any arguments, from a thread that can make the call, is a no-op: the call returns at
  its first step, the configuration (all of the coordinator's data and every thread) is
  what it was before the call, and the trace is empty: no callback is called, nothing is
  inserted, no thread waits.
\<close>

theorem process_disabled_is_noop:
  fixes c :: "'cb config"
  assumes "\<not> enabled (impl c)" and "in_user_code (threads c tid)"
  shows "final c [Call tid pt cb_args, Run tid] = c
       \<and> trace c [Call tid pt cb_args, Run tid] = []
       \<and> Process_step tid (Entered pt cb_args) (impl c) = ([], None, impl c)"
  using assms by (simp add: Process_entry_def)

theorem process_disabled_is_noop_witness:
  "\<not> enabled (impl (init_config :: nat config))
   \<and> in_user_code (threads (init_config :: nat config) 1)
   \<and> final (init_config :: nat config) [Call 1 ''P'' [7], Run 1] = init_config
   \<and> trace (init_config :: nat config) [Call 1 ''P'' [7], Run 1] = []"
proof -
  have h1: "\<not> enabled (impl (init_config :: nat config))"
    by (simp add: init_config_def Impl_init_def)
  have h2: "in_user_code (threads (init_config :: nat config) 1)"
    by (simp add: init_config_def)
  from process_disabled_is_noop [OF h1 h2, of "''P''" "[7]"] h1 h2 show ?thesis
    by blast
qed

section \<open>Steps and schedules\<close>

lemma impl_step_Run [simp]:
  "impl (snd (step c (Run tid))) =
     (case threads c tid of [] \<Rightarrow> impl c | f # st \<Rightarrow> snd (snd (Process_step tid f (impl c))))"
  by (simp split: list.splits prod.splits)

lemma fst_step_Run [simp]:
  "fst (step c (Run tid)) =
     (case threads c tid of [] \<Rightarrow> [] | f # st \<Rightarrow> fst (Process_step tid f (impl c)))"
  by (simp split: list.splits prod.splits)

lemma impl_step_Api [simp]: "impl (snd (step c (Api a))) = snd (api_step a (impl c))"
  by (simp split: prod.splits)

lemma fst_step_Api [simp]: "fst (step c (Api a)) = fst (api_step a (impl c))"
  by (simp split: prod.splits)

lemma impl_step_Call [simp]: "impl (snd (step c (Call tid pt cb_args))) = impl c"
  by simp

lemma fst_step_Call [simp]: "fst (step c (Call tid pt cb_args)) = []"
  by simp

declare step.simps [simp del]

lemmas run_defs = step.simps Let_def
  init_config_def Impl_init_def LoadDependencyAndMarkers_def push_back_def
  EnableProcessing_def DisableProcessing_def SetCallBack_def ClearCallBack_def
  ClearAllCallBacks_def ClearTrace_def Process_entry_def Process_locked_def
  Process_woken_def Process_finish_def record_markers_def emplace_def DisabledByMarker_def
  wait_loop_def PredecessorsAllCleared_def

section \<open>Marker records\<close>

lemma mark_points_lookup:
  "mark_points qs tid m q =
     (if q \<in> set qs then Some (case m q of None \<Rightarrow> tid | Some owner \<Rightarrow> owner) else m q)"
  by (induction qs arbitrary: m) (auto simp: emplace_def split: option.splits)

lemma record_markers_frame:
  "enabled (record_markers pt tid s) = enabled s"
  "num_callbacks_running (record_markers pt tid s) = num_callbacks_running s"
  "successors (record_markers pt tid s) = successors s"
  "predecessors (record_markers pt tid s) = predecessors s"
  "callbacks (record_markers pt tid s) = callbacks s"
  "markers (record_markers pt tid s) = markers s"
  "cleared_points (record_markers pt tid s) = cleared_points s"
  by (simp_all add: record_markers_def split: option.splits)

lemma record_markers_lookup:
  "marked_thread_id (record_markers pt tid s) q =
     (case markers s pt of
        None \<Rightarrow> marked_thread_id s q
      | Some marked \<Rightarrow>
          if q \<in> set marked
          then Some (case marked_thread_id s q of None \<Rightarrow> tid | Some owner \<Rightarrow> owner)
          else marked_thread_id s q)"
  by (simp add: record_markers_def mark_points_lookup split: option.splits)

lemma record_markers_keeps:
  "marked_thread_id s q = Some owner \<Longrightarrow> marked_thread_id (record_markers pt tid s) q = Some owner"
  by (simp add: record_markers_lookup split: option.splits)

lemma record_markers_not_marker:
  "markers s pt = None \<Longrightarrow> record_markers pt tid s = s"
  by (simp add: record_markers_def)

lemma wait_loop_frame:
  "enabled (snd (snd (wait_loop tid pt cb_args s))) = enabled s"
  "successors (snd (snd (wait_loop tid pt cb_args s))) = successors s"
  "callbacks (snd (snd (wait_loop tid pt cb_args s))) = callbacks s"
  "markers (snd (snd (wait_loop tid pt cb_args s))) = markers s"
  "marked_thread_id (snd (snd (wait_loop tid pt cb_args s))) = marked_thread_id s"
  by (simp_all add: wait_loop_def PredecessorsAllCleared_def Let_def split: option.splits)

lemma Process_step_marked:
  "marked_thread_id (snd (snd (Process_step tid f s))) =
     (case f of Locking pt cb_args \<Rightarrow> marked_thread_id (record_markers pt tid s)
      | _ \<Rightarrow> marked_thread_id s)"
  by (cases f)
     (simp_all add: Process_entry_def Process_locked_def Process_woken_def Process_finish_def
        wait_loop_frame Let_def)

lemma Process_locked_marked:
  "marked_thread_id (snd (snd (Process_locked tid pt cb_args s))) =
     marked_thread_id (record_markers pt tid s)"
  using Process_step_marked [of tid "Locking pt cb_args" s] by simp

lemma Process_step_keeps:
  "marked_thread_id s q = Some owner \<Longrightarrow>
     marked_thread_id (snd (snd (Process_step tid f s))) q = Some owner"
  by (simp add: Process_step_marked record_markers_keeps split: frame.splits)

lemma api_step_keeps:
  "marked_thread_id s q = Some owner \<Longrightarrow> \<not> is_load (Api a) \<Longrightarrow>
     marked_thread_id (snd (api_step a s)) q = Some owner"
  by (cases a)
     (simp_all add: EnableProcessing_def DisableProcessing_def SetCallBack_def ClearCallBack_def
        ClearAllCallBacks_def ClearTrace_def)

lemma step_keeps:
  assumes "marked_thread_id (impl c) q = Some owner" and "\<not> is_load a"
  shows "marked_thread_id (impl (snd (step c a))) q = Some owner"
proof (cases a)
  case (Call tid pt cb_args)
  with assms show ?thesis by (simp only: impl_step_Call)
next
  case (Run tid)
  with assms show ?thesis
    by (simp only: impl_step_Run split: list.splits) (simp add: Process_step_keeps)
next
  case (Api x)
  from assms have "marked_thread_id (snd (api_step x (impl c))) q = Some owner"
    unfolding Api by (rule api_step_keeps)
  then show ?thesis unfolding Api impl_step_Api .
qed

lemma final_keeps:
  "marked_thread_id (impl c) q = Some owner \<Longrightarrow> \<forall>a \<in> set acts. \<not> is_load a \<Longrightarrow>
     marked_thread_id (impl (final c acts)) q = Some owner"
  by (induction acts arbitrary: c) (simp_all add: step_keeps)


lemma DisabledByMarker_owner:
  "marked_thread_id s q = Some owner \<Longrightarrow> DisabledByMarker s q tid = (tid \<noteq> owner)"
  by (simp add: DisabledByMarker_def)

text \<open>
  Claim C1, as stated, fails: the marking loop uses \<^verbatim>\<open>emplace\<close>, which keeps a record
  that exists.  After thread 1 and then thread 2 have fired the marker \<open>M\<close>, the record
  of the marked successor \<open>S\<close> is thread 1, not thread 2, and it is thread 2 (the most
  recent marking thread) whose firing of \<open>S\<close> is disabled.
\<close>

theorem marker_record_not_overwritten:
  "trace init_config two_marker_firings =
     [NotifyAll, Insert 1 ''M'', NotifyAll, Insert 2 ''M'', NotifyAll]
   \<and> marked_thread_id (impl (final init_config two_marker_firings)) ''S'' = Some 1
   \<and> marked_thread_id (impl (final init_config two_marker_firings)) ''S'' \<noteq> Some 2
   \<and> DisabledByMarker (impl (final init_config two_marker_firings)) ''S'' 2
   \<and> \<not> DisabledByMarker (impl (final init_config two_marker_firings)) ''S'' 1"
  by (simp add: two_marker_firings_def run_defs)

text \<open>
  Claim C1, amended.  When \<^verbatim>\<open>Process\<close> runs its marking step on a marker predecessor, it
  records the calling thread against every successor the point marks that has no record
  yet, and keeps every record that exists; records of other points are unchanged.
  Consequently, through every later schedule without a reload (any firings of the same
  marker among them), the record of each marked successor, and with it the thread
  against which \<^verbatim>\<open>DisabledByMarker\<close> tests, is the one of the first marking since the
  last reload.
\<close>

theorem marker_record_first_firing_wins:
  fixes c :: "'cb config"
  assumes "threads c tid = Locking pt cb_args # st"
    and "markers (impl c) pt = Some marked"
    and "\<forall>a \<in> set acts. \<not> is_load a"
  shows "(\<forall>q \<in> set marked.
            marked_thread_id (impl (snd (step c (Run tid)))) q =
              Some (case marked_thread_id (impl c) q of None \<Rightarrow> tid | Some owner \<Rightarrow> owner)
          \<and> marked_thread_id (impl (final (snd (step c (Run tid))) acts)) q =
              Some (case marked_thread_id (impl c) q of None \<Rightarrow> tid | Some owner \<Rightarrow> owner)
          \<and> (\<forall>caller. DisabledByMarker (impl (final (snd (step c (Run tid))) acts)) q caller =
                (caller \<noteq> (case marked_thread_id (impl c) q of None \<Rightarrow> tid | Some owner \<Rightarrow> owner))))
       \<and> (\<forall>q. q \<notin> set marked \<longrightarrow>
            marked_thread_id (impl (snd (step c (Run tid)))) q = marked_thread_id (impl c) q)"
proof -
  have now: "marked_thread_id (impl (snd (step c (Run tid)))) q =
        (if q \<in> set marked
         then Some (case marked_thread_id (impl c) q of None \<Rightarrow> tid | Some owner \<Rightarrow> owner)
         else marked_thread_id (impl c) q)" for q
    using assms(1,2) by (simp add: Process_locked_marked record_markers_lookup)
  have later: "marked_thread_id (impl (final (snd (step c (Run tid))) acts)) q =
        Some (case marked_thread_id (impl c) q of None \<Rightarrow> tid | Some owner \<Rightarrow> owner)"
    if "q \<in> set marked" for q
    using that now [of q] assms(3) by (intro final_keeps) simp_all
  show ?thesis
    using now later by (simp add: DisabledByMarker_owner)
qed

theorem marker_record_first_firing_wins_witness:
  "threads second_marker_at_lock 2 = [Locking ''M'' []]
   \<and> markers (impl second_marker_at_lock) ''M'' = Some [''S'']
   \<and> marked_thread_id (impl second_marker_at_lock) ''S'' = Some 1
   \<and> marked_thread_id (impl (snd (step second_marker_at_lock (Run 2)))) ''S'' = Some 1
   \<and> marked_thread_id
       (impl (final (snd (step second_marker_at_lock (Run 2))) [Call 2 ''S'' [], Run 2, Run 2])) ''S''
     = Some 1
   \<and> DisabledByMarker
       (impl (final (snd (step second_marker_at_lock (Run 2))) [Call 2 ''S'' [], Run 2, Run 2])) ''S'' 2"
proof -
  have h1: "threads second_marker_at_lock 2 = Locking ''M'' [] # []"
    by (simp add: second_marker_at_lock_def run_defs)
  have h2: "markers (impl second_marker_at_lock) ''M'' = Some [''S'']"
    by (simp add: second_marker_at_lock_def run_defs)
  have h3: "\<forall>a \<in> set [Call 2 ''S'' [], Run 2, Run 2 :: nat action]. \<not> is_load a"
    by simp
  have h4: "marked_thread_id (impl second_marker_at_lock) ''S'' = Some 1"
    by (simp add: second_marker_at_lock_def run_defs)
  from marker_record_first_firing_wins [OF h1 h2 h3] h1 h2 h4 show ?thesis
    by simp
qed


section \<open>Suppressed firings\<close>

lemma Process_locked_suppressed:
  assumes "marked_thread_id s pt = Some owner" and "tid \<noteq> owner"
  shows "Process_locked tid pt cb_args s = ([Suppressed tid pt], None, record_markers pt tid s)"
proof -
  have "marked_thread_id (record_markers pt tid s) pt = Some owner"
    using assms(1) by (rule record_markers_keeps)
  then have "DisabledByMarker (record_markers pt tid s) pt tid"
    using assms(2) by (simp add: DisabledByMarker_owner)
  then show ?thesis
    by (simp add: Process_locked_def Let_def)
qed

text \<open>
  Claim C2, as stated, fails: the marking step comes before the marker test, so a
  suppressed firing of a point that is itself a marker predecessor leaves a record for
  the successors it marks.  With marker pairs \<open>A\<close> to \<open>B\<close> and \<open>B\<close> to \<open>C\<close> and \<open>B\<close>
  recorded for thread 1, the firing of \<open>B\<close> by thread 2 is suppressed and records
  thread 2 for \<open>C\<close>.
\<close>

theorem suppressed_firing_leaves_marker_record:
  "marked_thread_id (impl chained_markers) ''B'' = Some 1
   \<and> trace chained_markers [Call 2 ''B'' [], Run 2, Run 2] = [Suppressed 2 ''B'']
   \<and> marked_thread_id (impl chained_markers) ''C'' = None
   \<and> marked_thread_id (impl (final chained_markers [Call 2 ''B'' [], Run 2, Run 2])) ''C'' = Some 2
   \<and> impl (final chained_markers [Call 2 ''B'' [], Run 2, Run 2]) \<noteq> impl chained_markers"
proof -
  have a: "marked_thread_id (impl chained_markers) ''B'' = Some 1"
    by (simp add: chained_markers_def run_defs)
  have b: "trace chained_markers [Call 2 ''B'' [], Run 2, Run 2] = [Suppressed 2 ''B'']"
    by (simp add: chained_markers_def run_defs)
  have c: "marked_thread_id (impl chained_markers) ''C'' = None"
    by (simp add: chained_markers_def run_defs)
  have d: "marked_thread_id (impl (final chained_markers [Call 2 ''B'' [], Run 2, Run 2])) ''C'' = Some 2"
    by (simp add: chained_markers_def run_defs)
  from c d have "impl (final chained_markers [Call 2 ''B'' [], Run 2, Run 2]) \<noteq> impl chained_markers"
    by auto
  with a b c d show ?thesis by blast
qed

text \<open>
  Claim C2, amended.  For a point with a recorded marking thread, a call of \<^verbatim>\<open>Process\<close>
  from another thread is suppressed (with processing disabled it is a no-op and the
  configuration is exactly as before): it returns without inserting
  the point into the cleared-points set, without calling a callback, without notifying
  and without waiting (the trace is the early return alone), every thread is where it
  was, and the cleared-points set, the callback registry, the counter, the three graph
  indices and the enabled flag are unchanged.  The marked-thread records change only as
  the marking step of the call changes them: the calling thread is recorded for the
  successors that the point itself marks and that had no record.  When the point is not a
  marker predecessor, the whole configuration is exactly as before the call.
\<close>

theorem suppressed_firing_changes_only_marker_records:
  fixes c :: "'cb config"
  assumes "in_user_code (threads c tid)"
    and "marked_thread_id (impl c) pt = Some owner" and "tid \<noteq> owner"
  shows "(enabled (impl c) \<longrightarrow>
            trace c [Call tid pt cb_args, Run tid, Run tid] = [Suppressed tid pt]
          \<and> final c [Call tid pt cb_args, Run tid, Run tid] =
              c\<lparr>impl := record_markers pt tid (impl c)\<rparr>
          \<and> (markers (impl c) pt = None \<longrightarrow>
                final c [Call tid pt cb_args, Run tid, Run tid] = c))
       \<and> (\<not> enabled (impl c) \<longrightarrow>
            trace c [Call tid pt cb_args, Run tid] = []
          \<and> final c [Call tid pt cb_args, Run tid] = c)
       \<and> cleared_points (record_markers pt tid (impl c)) = cleared_points (impl c)
       \<and> callbacks (record_markers pt tid (impl c)) = callbacks (impl c)
       \<and> num_callbacks_running (record_markers pt tid (impl c)) = num_callbacks_running (impl c)
       \<and> successors (record_markers pt tid (impl c)) = successors (impl c)
       \<and> predecessors (record_markers pt tid (impl c)) = predecessors (impl c)
       \<and> markers (record_markers pt tid (impl c)) = markers (impl c)
       \<and> enabled (record_markers pt tid (impl c)) = enabled (impl c)
       \<and> (\<forall>q. marked_thread_id (record_markers pt tid (impl c)) q =
             (case markers (impl c) pt of
                None \<Rightarrow> marked_thread_id (impl c) q
              | Some marked \<Rightarrow>
                  if q \<in> set marked
                  then Some (case marked_thread_id (impl c) q of None \<Rightarrow> tid | Some old \<Rightarrow> old)
                  else marked_thread_id (impl c) q))"
proof -
  have on: "trace c [Call tid pt cb_args, Run tid, Run tid] = [Suppressed tid pt]
      \<and> final c [Call tid pt cb_args, Run tid, Run tid] = c\<lparr>impl := record_markers pt tid (impl c)\<rparr>"
    if "enabled (impl c)"
    using assms that
    by (simp add: step.simps Process_entry_def Process_locked_suppressed)
  have off: "trace c [Call tid pt cb_args, Run tid] = [] \<and> final c [Call tid pt cb_args, Run tid] = c"
    if "\<not> enabled (impl c)"
    using assms(1) that by (simp add: step.simps Process_entry_def)
  have "record_markers pt tid (impl c) = impl c" if "markers (impl c) pt = None"
    using that by (rule record_markers_not_marker)
  with on off show ?thesis
    by (simp add: record_markers_frame record_markers_lookup)
qed

theorem suppressed_firing_changes_only_marker_records_witness:
  "enabled (impl chained_markers)
   \<and> in_user_code (threads chained_markers 2)
   \<and> marked_thread_id (impl chained_markers) ''B'' = Some 1
   \<and> trace chained_markers [Call 2 ''B'' [5], Run 2, Run 2] = [Suppressed 2 ''B'']
   \<and> final chained_markers [Call 2 ''B'' [5], Run 2, Run 2] =
       chained_markers\<lparr>impl := record_markers ''B'' 2 (impl chained_markers)\<rparr>
   \<and> cleared_points (record_markers ''B'' 2 (impl chained_markers)) = cleared_points (impl chained_markers)
   \<and> callbacks (record_markers ''B'' 2 (impl chained_markers)) = callbacks (impl chained_markers)"
proof -
  have h1: "enabled (impl chained_markers)"
    by (simp add: chained_markers_def run_defs)
  have h2: "in_user_code (threads chained_markers 2)"
    by (simp add: chained_markers_def run_defs)
  have h3: "marked_thread_id (impl chained_markers) ''B'' = Some 1"
    by (simp add: chained_markers_def run_defs)
  have h4: "(2::nat) \<noteq> 1" by simp
  from suppressed_firing_changes_only_marker_records [OF h2 h3 h4, of "[5]"] h1 h2 h3 show ?thesis
    by blast
qed


section \<open>The cleared-points set\<close>

lemma wait_loop_cleared:
  "cleared_points s \<subseteq> cleared_points (snd (snd (wait_loop tid pt cb_args s)))"
  by (auto simp: wait_loop_def PredecessorsAllCleared_def Let_def split: option.splits)

lemma wait_loop_insert:
  "Insert caller q \<in> set (fst (wait_loop tid pt cb_args s)) \<Longrightarrow>
     q \<in> cleared_points (snd (snd (wait_loop tid pt cb_args s)))"
  by (auto simp: wait_loop_def PredecessorsAllCleared_def Let_def split: option.splits if_splits)

lemma Process_step_cleared:
  "cleared_points s \<subseteq> cleared_points (snd (snd (Process_step tid f s)))"
  using wait_loop_cleared [of s tid] wait_loop_cleared [of "record_markers _ tid s" tid]
  by (cases f)
     (auto simp: Process_entry_def Process_locked_def Process_woken_def Process_finish_def
        Let_def record_markers_frame)

lemma Process_step_insert:
  "Insert caller q \<in> set (fst (Process_step tid f s)) \<Longrightarrow>
     q \<in> cleared_points (snd (snd (Process_step tid f s)))"
  by (cases f)
     (auto simp: Process_entry_def Process_locked_def Process_woken_def Process_finish_def
        Let_def dest: wait_loop_insert split: if_splits)

lemma api_step_cleared:
  "\<not> is_reset (Api a) \<Longrightarrow> cleared_points (snd (api_step a s)) = cleared_points s"
  by (cases a)
     (simp_all add: EnableProcessing_def DisableProcessing_def SetCallBack_def ClearCallBack_def
        ClearAllCallBacks_def)

lemma api_step_no_insert: "Insert caller q \<notin> set (fst (api_step a s))"
  by (cases a) (simp_all add: ClearCallBack_def ClearAllCallBacks_def)

lemma step_cleared:
  assumes "\<not> is_reset a"
  shows "cleared_points (impl c) \<subseteq> cleared_points (impl (snd (step c a)))"
proof (cases a)
  case (Call tid pt cb_args)
  then show ?thesis by simp
next
  case (Run tid)
  then show ?thesis
    using Process_step_cleared [of "impl c" tid] by (simp split: list.splits)
next
  case (Api x)
  with assms have "cleared_points (snd (api_step x (impl c))) = cleared_points (impl c)"
    by (intro api_step_cleared) simp
  with Api show ?thesis by simp
qed

lemma step_insert:
  assumes "Insert caller q \<in> set (fst (step c a))"
  shows "q \<in> cleared_points (impl (snd (step c a)))"
proof (cases a)
  case (Call tid pt cb_args)
  with assms show ?thesis by simp
next
  case (Run tid)
  with assms show ?thesis
    by (auto split: list.splits dest: Process_step_insert)
next
  case (Api x)
  with assms show ?thesis by (simp add: api_step_no_insert)
qed

lemma final_cleared:
  "\<forall>a \<in> set acts. \<not> is_reset a \<Longrightarrow> cleared_points (impl c) \<subseteq> cleared_points (impl (final c acts))"
proof (induction acts arbitrary: c)
  case Nil
  then show ?case by simp
next
  case (Cons a acts)
  have "cleared_points (impl c) \<subseteq> cleared_points (impl (snd (step c a)))"
    using Cons.prems by (intro step_cleared) simp
  also have "\<dots> \<subseteq> cleared_points (impl (final (snd (step c a)) acts))"
    using Cons.prems by (intro Cons.IH) simp
  finally show ?case by simp
qed

lemma trace_insert:
  "\<forall>a \<in> set acts. \<not> is_reset a \<Longrightarrow> Insert caller q \<in> set (trace c acts) \<Longrightarrow>
     q \<in> cleared_points (impl (final c acts))"
proof (induction acts arbitrary: c)
  case Nil
  then show ?case by simp
next
  case (Cons a acts)
  from Cons.prems(2) consider
      "Insert caller q \<in> set (fst (step c a))"
    | "Insert caller q \<in> set (trace (snd (step c a)) acts)"
    by auto
  then show ?case
  proof cases
    case 1
    then have "q \<in> cleared_points (impl (snd (step c a)))"
      by (rule step_insert)
    moreover have "cleared_points (impl (snd (step c a)))
        \<subseteq> cleared_points (impl (final (snd (step c a)) acts))"
      using Cons.prems(1) by (intro final_cleared) simp
    ultimately show ?thesis by auto
  next
    case 2
    with Cons.prems(1) have "q \<in> cleared_points (impl (final (snd (step c a)) acts))"
      by (intro Cons.IH) simp_all
    then show ?thesis by simp
  qed
qed

text \<open>
  Claim C8.  Membership in the cleared-points set is monotone: through every schedule of
  \<^verbatim>\<open>Process\<close> calls and steps, \<^verbatim>\<open>SetCallBack\<close>, \<^verbatim>\<open>ClearCallBack\<close>,
  \<^verbatim>\<open>ClearAllCallBacks\<close>, \<^verbatim>\<open>EnableProcessing\<close> and \<^verbatim>\<open>DisableProcessing\<close> (no
  \<^verbatim>\<open>ClearTrace\<close>, no reload), every point that is in the set stays in it and every point
  that \<^verbatim>\<open>Process\<close> inserts on the way is in it at the end; a single step that removes a
  point from the set is a \<^verbatim>\<open>ClearTrace\<close> or a \<^verbatim>\<open>LoadDependencyAndMarkers\<close>.
\<close>

theorem cleared_points_monotone:
  fixes c :: "'cb config"
  assumes "\<forall>a \<in> set acts. \<not> is_reset a"
  shows "cleared_points (impl c) \<subseteq> cleared_points (impl (final c acts))
       \<and> (\<forall>caller q. Insert caller q \<in> set (trace c acts) \<longrightarrow>
             q \<in> cleared_points (impl (final c acts)))
       \<and> (\<forall>a q. q \<in> cleared_points (impl c) \<and> q \<notin> cleared_points (impl (snd (step c a)))
             \<longrightarrow> is_reset a)"
proof -
  have "is_reset a" if "q \<in> cleared_points (impl c)" "q \<notin> cleared_points (impl (snd (step c a)))"
    for a q
    using that step_cleared [of a c] by auto
  with assms show ?thesis
    by (auto dest: trace_insert final_cleared [THEN subsetD])
qed

theorem cleared_points_monotone_witness:
  "trace enabled_config fired_then_busy =
     [Insert 1 ''P'', NotifyAll, Invoke 2 ''Q'' 7 [], WaitCallbacks, Insert 2 ''Q'', NotifyAll, EraseAll]
   \<and> ''P'' \<in> cleared_points (impl (final enabled_config fired_then_busy))
   \<and> ''Q'' \<in> cleared_points (impl (final enabled_config fired_then_busy))
   \<and> cleared_points (impl enabled_config) \<subseteq> cleared_points (impl (final enabled_config fired_then_busy))"
proof -
  have h: "\<forall>a \<in> set fired_then_busy. \<not> is_reset a"
    by (simp add: fired_then_busy_def)
  have tr: "trace enabled_config fired_then_busy =
     [Insert 1 ''P'', NotifyAll, Invoke 2 ''Q'' 7 [], WaitCallbacks, Insert 2 ''Q'', NotifyAll, EraseAll]"
    by (simp add: enabled_config_def fired_then_busy_def run_defs)
  from cleared_points_monotone [OF h, of enabled_config] tr show ?thesis
    by simp
qed

section \<open>Removing callbacks\<close>

lemma running_simps [simp]:
  "running [] = 0"
  "running (f # st) = (if is_callback f then 1 else 0) + running st"
  by (simp_all add: running_def)

lemma running_nonneg: "0 \<le> running st"
  by (simp add: running_def)

lemma in_flight_over:
  assumes "finite T" and "busy th \<subseteq> T"
  shows "(\<Sum>tid \<in> busy th. running (th tid)) = (\<Sum>tid \<in> T. running (th tid))"
  using assms by (intro sum.mono_neutral_left) (auto simp: busy_def)

lemma busy_update: "busy (th(tid := st)) \<subseteq> insert tid (busy th)"
  by (auto simp: busy_def)

lemma finite_busy_update: "finite (busy th) \<Longrightarrow> finite (busy (th(tid := st)))"
  by (rule finite_subset [OF busy_update]) simp

lemma in_flight_update:
  assumes "finite (busy (threads c))"
  shows "in_flight (c\<lparr>impl := s', threads := (threads c)(tid := st)\<rparr>) =
           in_flight c - running (threads c tid) + running st"
proof -
  let ?T = "insert tid (busy (threads c))"
  let ?th = "(threads c)(tid := st)"
  have fin: "finite ?T" using assms by simp
  have old: "in_flight c = (\<Sum>t \<in> ?T. running (threads c t))"
    unfolding in_flight_def using fin by (intro in_flight_over) auto
  have "(\<Sum>t \<in> busy ?th. running (?th t)) = (\<Sum>t \<in> ?T. running (?th t))"
    using fin busy_update by (rule in_flight_over)
  then have new: "in_flight (c\<lparr>impl := s', threads := ?th\<rparr>) = (\<Sum>t \<in> ?T. running (?th t))"
    by (simp add: in_flight_def)
  have "(\<Sum>t \<in> ?T. running (threads c t)) =
      running (threads c tid) + (\<Sum>t \<in> ?T - {tid}. running (threads c t))"
    using fin by (intro sum.remove) simp_all
  moreover have "(\<Sum>t \<in> ?T. running (?th t)) =
      running (?th tid) + (\<Sum>t \<in> ?T - {tid}. running (?th t))"
    using fin by (intro sum.remove) simp_all
  moreover have "(\<Sum>t \<in> ?T - {tid}. running (?th t)) =
      (\<Sum>t \<in> ?T - {tid}. running (threads c t))"
    by (intro sum.cong) simp_all
  ultimately show ?thesis using old new by simp
qed

lemma wait_loop_counter:
  "num_callbacks_running (snd (snd (wait_loop tid pt cb_args s))) =
     num_callbacks_running s
       + running (case fst (snd (wait_loop tid pt cb_args s)) of None \<Rightarrow> [] | Some f' \<Rightarrow> [f'])"
  by (simp add: wait_loop_def PredecessorsAllCleared_def Let_def split: option.splits)

lemma Process_step_counter:
  "num_callbacks_running (snd (snd (Process_step tid f s))) =
     num_callbacks_running s - running [f]
       + running (case fst (snd (Process_step tid f s)) of None \<Rightarrow> [] | Some f' \<Rightarrow> [f'])"
  by (cases f)
     (simp_all add: Process_entry_def Process_locked_def Process_woken_def Process_finish_def
        Let_def wait_loop_counter record_markers_frame)

lemma api_step_counter:
  "num_callbacks_running (snd (api_step a s)) = num_callbacks_running s"
  by (cases a)
     (simp_all add: EnableProcessing_def DisableProcessing_def SetCallBack_def ClearCallBack_def
        ClearAllCallBacks_def ClearTrace_def Load_frame)

lemma in_flight_impl [simp]: "in_flight (c\<lparr>impl := s'\<rparr>) = in_flight c"
  by (simp add: in_flight_def)

lemma step_counter_ok:
  assumes "counter_ok c"
  shows "counter_ok (snd (step c a))"
proof (cases a)
  case (Call tid pt cb_args)
  show ?thesis
  proof (cases "in_user_code (threads c tid)")
    case True
    have "in_flight (c\<lparr>impl := impl c, threads := (threads c)(tid := Entered pt cb_args # threads c tid)\<rparr>)
        = in_flight c"
      using assms by (subst in_flight_update) (simp_all add: counter_ok_def)
    with True Call assms show ?thesis
      by (simp add: step.simps counter_ok_def finite_busy_update)
  next
    case False
    with Call assms show ?thesis by (simp add: step.simps)
  qed
next
  case (Run tid)
  show ?thesis
  proof (cases "threads c tid")
    case Nil
    with Run assms show ?thesis by (simp add: step.simps)
  next
    case (Cons f st)
    obtain evs nxt s' where ps: "Process_step tid f (impl c) = (evs, nxt, s')"
      by (cases "Process_step tid f (impl c)") auto
    let ?st = "case nxt of None \<Rightarrow> st | Some f' \<Rightarrow> f' # st"
    have cnt: "num_callbacks_running s' =
        num_callbacks_running (impl c) - running [f] + running (case nxt of None \<Rightarrow> [] | Some f' \<Rightarrow> [f'])"
      using Process_step_counter [of tid f "impl c"] ps by simp
    have "in_flight (c\<lparr>impl := s', threads := (threads c)(tid := ?st)\<rparr>) =
        in_flight c - running (threads c tid) + running ?st"
      using assms by (intro in_flight_update) (simp add: counter_ok_def)
    also have "\<dots> = num_callbacks_running s'"
      using assms cnt Cons by (simp add: counter_ok_def split: option.splits)
    finally have "num_callbacks_running s' = in_flight (c\<lparr>impl := s', threads := (threads c)(tid := ?st)\<rparr>)"
      by simp
    with Run Cons ps assms show ?thesis
      by (simp add: step.simps counter_ok_def finite_busy_update)
  qed
next
  case (Api x)
  with assms show ?thesis
    by (simp add: step.simps counter_ok_def api_step_counter split: prod.splits)
       (metis api_step_counter snd_conv)
qed

lemma init_counter_ok: "counter_ok init_config"
  by (simp add: counter_ok_def init_config_def Impl_init_def in_flight_def busy_def)

lemma final_counter_ok: "counter_ok c \<Longrightarrow> counter_ok (final c acts)"
  by (induction acts arbitrary: c) (simp_all add: step_counter_ok)

lemma counter_ok_nonneg:
  assumes "counter_ok c"
  shows "0 \<le> num_callbacks_running (impl c)"
proof -
  have "0 \<le> in_flight c"
    unfolding in_flight_def by (intro sum_nonneg running_nonneg)
  with assms show ?thesis by (simp add: counter_ok_def)
qed

lemma counter_ok_idle:
  assumes "counter_ok c" and "num_callbacks_running (impl c) \<le> 0"
  shows "num_callbacks_running (impl c) = 0 \<and> (\<forall>tid. \<forall>f \<in> set (threads c tid). \<not> is_callback f)"
proof -
  let ?S = "busy (threads c)"
  have fin: "finite ?S" and eq: "num_callbacks_running (impl c) = in_flight c"
    using assms(1) by (simp_all add: counter_ok_def)
  have "0 \<le> in_flight c"
    unfolding in_flight_def by (intro sum_nonneg running_nonneg)
  with assms(2) eq have zero: "in_flight c = 0" by simp
  then have "\<forall>tid \<in> ?S. running (threads c tid) = 0"
    unfolding in_flight_def using fin by (subst (asm) sum_nonneg_eq_0_iff) (auto simp: running_nonneg)
  then have "filter is_callback (threads c tid) = []" for tid
    by (cases "threads c tid = []") (auto simp: running_def busy_def)
  then have "\<forall>tid. \<forall>f \<in> set (threads c tid). \<not> is_callback f"
    by (metis filter_empty_conv)
  with zero eq show ?thesis by simp
qed

lemma wait_loop_invoke:
  "Invoke caller q cb args \<in> set (fst (wait_loop tid pt cb_args s)) \<Longrightarrow> callbacks s q = Some cb"
  by (auto simp: wait_loop_def PredecessorsAllCleared_def Let_def split: option.splits if_splits)

lemma Process_step_invoke:
  "Invoke caller q cb args \<in> set (fst (Process_step tid f s)) \<Longrightarrow> callbacks s q = Some cb"
  by (cases f)
     (auto simp: Process_entry_def Process_locked_def Process_woken_def Process_finish_def
        Let_def record_markers_frame dest: wait_loop_invoke split: if_splits)

lemma Process_step_callbacks:
  "callbacks (snd (snd (Process_step tid f s))) = callbacks s"
  by (cases f)
     (simp_all add: Process_entry_def Process_locked_def Process_woken_def Process_finish_def
        Let_def wait_loop_frame record_markers_frame)

lemma api_step_callbacks_none:
  "callbacks s q = None \<Longrightarrow> \<forall>cb. a \<noteq> SetCB q cb \<Longrightarrow> callbacks (snd (api_step a s)) q = None"
  by (cases a)
     (auto simp: EnableProcessing_def DisableProcessing_def SetCallBack_def ClearCallBack_def
        ClearAllCallBacks_def ClearTrace_def Load_frame)

lemma api_step_no_invoke: "Invoke caller q cb args \<notin> set (fst (api_step a s))"
  by (cases a) (simp_all add: ClearCallBack_def ClearAllCallBacks_def)

lemma step_invoke:
  assumes "Invoke caller q cb args \<in> set (fst (step c a))"
  shows "callbacks (impl c) q = Some cb"
proof (cases a)
  case (Call tid pt cb_args)
  with assms show ?thesis by simp
next
  case (Run tid)
  with assms show ?thesis
    by (auto split: list.splits dest: Process_step_invoke)
next
  case (Api x)
  with assms show ?thesis by (simp add: api_step_no_invoke)
qed

lemma step_callbacks_none:
  assumes "callbacks (impl c) q = None" and "\<forall>cb. a \<noteq> Api (SetCB q cb)"
  shows "callbacks (impl (snd (step c a))) q = None"
proof (cases a)
  case (Call tid pt cb_args)
  with assms show ?thesis by simp
next
  case (Run tid)
  with assms show ?thesis
    by (simp add: Process_step_callbacks split: list.splits)
next
  case (Api x)
  with assms have "callbacks (snd (api_step x (impl c))) q = None"
    by (intro api_step_callbacks_none) auto
  with Api show ?thesis by simp
qed

lemma no_invoke_while_unregistered:
  "callbacks (impl c) q = None \<Longrightarrow> \<forall>cb. Api (SetCB q cb) \<notin> set acts \<Longrightarrow>
     Invoke caller q cb args \<notin> set (trace c acts)"
proof (induction acts arbitrary: c)
  case Nil
  then show ?case by simp
next
  case (Cons a acts)
  have "Invoke caller q cb args \<notin> set (fst (step c a))"
    using Cons.prems(1) step_invoke [of caller q cb args c a] by auto
  moreover have "callbacks (impl (snd (step c a))) q = None"
    using Cons.prems by (intro step_callbacks_none) auto
  then have "Invoke caller q cb args \<notin> set (trace (snd (step c a)) acts)"
    using Cons.prems(2) by (intro Cons.IH) auto
  ultimately show ?case by simp
qed

lemma ClearCB_waits:
  "0 < num_callbacks_running (impl c) \<Longrightarrow> step c (Api (ClearCB pt)) = ([WaitCallbacks], c)"
  by (simp add: step.simps ClearCallBack_def)

lemma ClearAllCB_waits:
  "0 < num_callbacks_running (impl c) \<Longrightarrow> step c (Api ClearAllCB) = ([WaitCallbacks], c)"
  by (simp add: step.simps ClearAllCallBacks_def)

lemma ClearCB_erases:
  "\<not> 0 < num_callbacks_running (impl c) \<Longrightarrow>
     step c (Api (ClearCB pt)) = ([Erase pt], c\<lparr>impl := (impl c)\<lparr>callbacks := (callbacks (impl c))(pt := None)\<rparr>\<rparr>)"
  by (simp add: step.simps ClearCallBack_def)

lemma ClearAllCB_erases:
  "\<not> 0 < num_callbacks_running (impl c) \<Longrightarrow>
     step c (Api ClearAllCB) = ([EraseAll], c\<lparr>impl := (impl c)\<lparr>callbacks := Map.empty\<rparr>\<rparr>)"
  by (simp add: step.simps ClearAllCallBacks_def)

text \<open>
  Claim C6.  In every configuration the program reaches from its initial one the
  in-flight counter is not negative; while it is positive (that is, not zero), \<^verbatim>\<open>ClearCallBack\<close> and \<^verbatim>\<open>ClearAllCallBacks\<close> wait and
  change nothing; when they erase, the counter is zero and no thread of the program is
  inside a callback, and after the erasure no callback of an erased point is called until
  \<^verbatim>\<open>SetCallBack\<close> registers one again; \<^verbatim>\<open>SetCallBack\<close> takes effect in its own step
  whatever the counter is.
\<close>

theorem removal_waits_for_running_callbacks:
  fixes c :: "'cb config"
  assumes "c = final init_config history"
  shows "0 \<le> num_callbacks_running (impl c)
       \<and> (0 < num_callbacks_running (impl c) \<longrightarrow>
            step c (Api (ClearCB pt)) = ([WaitCallbacks], c)
          \<and> step c (Api ClearAllCB) = ([WaitCallbacks], c))
       \<and> (\<not> 0 < num_callbacks_running (impl c) \<longrightarrow>
            (\<forall>tid. \<forall>f \<in> set (threads c tid). \<not> is_callback f)
          \<and> step c (Api (ClearCB pt)) =
              ([Erase pt], c\<lparr>impl := (impl c)\<lparr>callbacks := (callbacks (impl c))(pt := None)\<rparr>\<rparr>)
          \<and> step c (Api ClearAllCB) =
              ([EraseAll], c\<lparr>impl := (impl c)\<lparr>callbacks := Map.empty\<rparr>\<rparr>)
          \<and> (\<forall>later caller cb args. (\<forall>cb'. Api (SetCB pt cb') \<notin> set later) \<longrightarrow>
                Invoke caller pt cb args \<notin> set (trace (snd (step c (Api (ClearCB pt)))) later))
          \<and> (\<forall>later caller q cb args. (\<forall>cb'. Api (SetCB q cb') \<notin> set later) \<longrightarrow>
                Invoke caller q cb args \<notin> set (trace (snd (step c (Api ClearAllCB))) later)))
       \<and> step c (Api (SetCB pt cb0)) = ([], c\<lparr>impl := SetCallBack pt cb0 (impl c)\<rparr>)
       \<and> callbacks (SetCallBack pt cb0 (impl c)) pt = Some cb0"
proof -
  have ok: "counter_ok c"
    unfolding assms by (rule final_counter_ok [OF init_counter_ok])
  have idle: "\<forall>tid. \<forall>f \<in> set (threads c tid). \<not> is_callback f"
    if "\<not> 0 < num_callbacks_running (impl c)"
    using counter_ok_idle [OF ok] that by simp
  have one: "Invoke caller pt cb args \<notin> set (trace (snd (step c (Api (ClearCB pt)))) later)"
    if "\<not> 0 < num_callbacks_running (impl c)" "\<forall>cb'. Api (SetCB pt cb') \<notin> set later"
    for later caller cb args
    using that by (intro no_invoke_while_unregistered) (simp_all add: ClearCB_erases)
  have all: "Invoke caller q cb args \<notin> set (trace (snd (step c (Api ClearAllCB))) later)"
    if "\<not> 0 < num_callbacks_running (impl c)" "\<forall>cb'. Api (SetCB q cb') \<notin> set later"
    for later caller q cb args
    using that by (intro no_invoke_while_unregistered) (simp_all add: ClearAllCB_erases)
  have set: "step c (Api (SetCB pt cb0)) = ([], c\<lparr>impl := SetCallBack pt cb0 (impl c)\<rparr>)"
    by (simp add: step.simps)
  have reg: "callbacks (SetCallBack pt cb0 (impl c)) pt = Some cb0"
    by (simp add: SetCallBack_def)
  show ?thesis
    using counter_ok_nonneg [OF ok] idle one all set reg
    by (simp add: ClearCB_waits ClearAllCB_waits ClearCB_erases ClearAllCB_erases)
qed

theorem removal_waits_for_running_callbacks_witness:
  "0 < num_callbacks_running (impl callback_running)
   \<and> step callback_running (Api (ClearCB ''Q'')) = ([WaitCallbacks], callback_running)
   \<and> step callback_running (Api ClearAllCB) = ([WaitCallbacks], callback_running)
   \<and> callbacks (impl (snd (step callback_running (Api (SetCB ''P'' 9))))) ''P'' = Some 9
   \<and> \<not> 0 < num_callbacks_running (impl callback_returned)
   \<and> fst (step callback_returned (Api (ClearCB ''Q''))) = [Erase ''Q'']
   \<and> Invoke 3 ''Q'' 7 [] \<notin>
        set (trace (snd (step callback_returned (Api (ClearCB ''Q'')))) [Call 3 ''Q'' [], Run 3, Run 3])"
proof -
  have busy: "0 < num_callbacks_running (impl callback_running)"
    by (simp add: callback_running_def run_defs)
  have idle: "\<not> 0 < num_callbacks_running (impl callback_returned)"
    by (simp add: callback_returned_def run_defs)
  have later: "\<forall>cb'. Api (SetCB ''Q'' cb') \<notin> set [Call 3 ''Q'' [], Run 3, Run 3 :: nat action]"
    by simp
  note a = removal_waits_for_running_callbacks [OF callback_running_def, of "''Q''" 9]
  note b = removal_waits_for_running_callbacks [OF callback_returned_def, of "''Q''" 9]
  from a busy have "step callback_running (Api (ClearCB ''Q'')) = ([WaitCallbacks], callback_running)"
    and "step callback_running (Api ClearAllCB) = ([WaitCallbacks], callback_running)"
    by blast+
  moreover from removal_waits_for_running_callbacks [OF callback_running_def, of "''P''" 9]
  have "callbacks (impl (snd (step callback_running (Api (SetCB ''P'' 9))))) ''P'' = Some 9"
    by simp
  moreover from b idle have "fst (step callback_returned (Api (ClearCB ''Q''))) = [Erase ''Q'']"
    by simp
  moreover from b idle later
  have "Invoke 3 ''Q'' 7 [] \<notin>
        set (trace (snd (step callback_returned (Api (ClearCB ''Q'')))) [Call 3 ''Q'' [], Run 3, Run 3])"
    by blast
  ultimately show ?thesis using busy idle by blast
qed

section \<open>The order of firings\<close>


























end
